theory Spec2Isabelle
  imports Main "HOL-Library.AList" "HOL-Library.Char_ord" "HOL-Library.List_Lexorder"
begin

section \<open>Text, errors and the regular expressions of the program\<close>

text \<open>
  A Python \<open>str\<close> is modelled as a \<open>string\<close>, one \<open>char\<close> per code point; the
  model covers the code points below 256, which include every character the program's
  patterns mention. An exception that leaves a function is a value \<open>Inl e\<close> of the
  result.
\<close>

datatype error =
    UnboundLocalError
  | AttributeError
  | TypeError
  | IndexError
  | UnicodeDecodeError
  | OtherError string

text \<open>
  The program's regular expressions use literal characters, \<open>.\<close> (any character but
  the newline), \<open>\s\<close>, the greedy star on a single character class, one capturing
  group and \<open>$\<close>. A pattern is the list of its items in the order they are written.
\<close>

datatype atom = Lit char | Dot | Space

datatype item = One atom | Star atom | GOpen | GClose | Eol

type_synonym pattern = "item list"

definition isspace :: "char \<Rightarrow> bool" where
  "isspace c = (c \<in> set [CHR 0x09, CHR 0x0A, CHR 0x0B, CHR 0x0C, CHR 0x0D,
                         CHR 0x1C, CHR 0x1D, CHR 0x1E, CHR 0x1F, CHR 0x20,
                         CHR 0x85, CHR 0xA0])"

fun atom_ok :: "atom \<Rightarrow> char \<Rightarrow> bool" where
  "atom_ok (Lit c) x = (x = c)"
| "atom_ok Dot x = (x \<noteq> CHR 0x0A)"
| "atom_ok Space x = isspace x"

definition lits :: "string \<Rightarrow> pattern" where
  "lits s = map (\<lambda>c. One (Lit c)) s"

text \<open>
  \<open>match_items p opens caps s\<close> matches the pattern \<open>p\<close> at the start of \<open>s\<close> the way
  the backtracking matcher of \<open>re\<close> does: a star first takes as many characters as it
  can and gives them back one at a time. \<open>opens\<close> holds the text that was left when
  each open group began, \<open>caps\<close> the groups captured so far; the result is the captured
  groups and the text left after the match.
\<close>

fun match_items :: "pattern \<Rightarrow> string list \<Rightarrow> string list \<Rightarrow> string \<Rightarrow> (string list \<times> string) option" where
  "match_items [] opens caps s = Some (caps, s)"
| "match_items (One a # r) opens caps [] = None"
| "match_items (One a # r) opens caps (c # cs) =
     (if atom_ok a c then match_items r opens caps cs else None)"
| "match_items (Star a # r) opens caps [] = match_items r opens caps []"
| "match_items (Star a # r) opens caps (c # cs) =
     (if atom_ok a c
      then (case match_items (Star a # r) opens caps cs of
              Some m \<Rightarrow> Some m
            | None \<Rightarrow> match_items r opens caps (c # cs))
      else match_items r opens caps (c # cs))"
| "match_items (GOpen # r) opens caps s = match_items r (s # opens) caps s"
| "match_items (GClose # r) opens caps s =
     (case opens of
        [] \<Rightarrow> None
      | st # os \<Rightarrow> match_items r os (caps @ [take (length st - length s) st]) s)"
| "match_items (Eol # r) opens caps s =
     (if s = [] \<or> s = [CHR 0x0A] then match_items r opens caps s else None)"

text \<open>
  \<open>re.search\<close>: the first position of the text, from the left, at which the pattern
  matches; the value is the tuple \<open>groups()\<close> of the match, \<open>None\<close> when no position
  matches.
\<close>

fun re_search :: "pattern \<Rightarrow> string \<Rightarrow> string list option" where
  "re_search p [] =
     (case match_items p [] [] [] of
        Some (caps, rest) \<Rightarrow> Some caps
      | None \<Rightarrow> None)"
| "re_search p (c # cs) =
     (case match_items p [] [] (c # cs) of
        Some (caps, rest) \<Rightarrow> Some caps
      | None \<Rightarrow> re_search p cs)"

text \<open>
  \<open>str.splitlines\<close>: the text is cut at every line boundary (\<open>\r\n\<close> counts as one),
  the boundaries are dropped, and a text that ends in a boundary has no empty last line.
\<close>

definition is_linebreak :: "char \<Rightarrow> bool" where
  "is_linebreak c = (c \<in> set [CHR 0x0A, CHR 0x0B, CHR 0x0C, CHR 0x0D,
                              CHR 0x1C, CHR 0x1D, CHR 0x1E, CHR 0x85])"

fun splitlines_from :: "string \<Rightarrow> string \<Rightarrow> string list" where
  "splitlines_from cur [] = (if cur = [] then [] else [cur])"
| "splitlines_from cur (c # cs) =
     (if c = CHR 0x0D then
        (case cs of
           [] \<Rightarrow> cur # splitlines_from [] cs
         | d # ds \<Rightarrow> if d = CHR 0x0A then cur # splitlines_from [] ds
                    else cur # splitlines_from [] cs)
      else if is_linebreak c then cur # splitlines_from [] cs
      else splitlines_from (cur @ [c]) cs)"

definition splitlines :: "string \<Rightarrow> string list" where
  "splitlines s = splitlines_from [] s"

section \<open>IssuesFinder\<close>

subsection \<open>match_ordered_strings and the registered rule\<close>

text \<open>
  The inner loop of \<open>match_ordered_strings\<close>: the lines are searched in order and the
  loop breaks at the first line the target matches (its line counter is never read).
\<close>

fun search_lines :: "pattern \<Rightarrow> string list \<Rightarrow> bool" where
  "search_lines target [] = False"
| "search_lines target (line # ls) =
     (if re_search target line \<noteq> None then True else search_lines target ls)"

text \<open>The outer loop adds the flag of every target to the set \<open>found_all\<close>.\<close>

fun match_loop :: "string \<Rightarrow> pattern list \<Rightarrow> bool set \<Rightarrow> bool set" where
  "match_loop log [] found_all = found_all"
| "match_loop log (target # ts) found_all =
     match_loop log ts (insert (search_lines target (splitlines log)) found_all)"

text \<open>Python's \<open>all\<close> over a set of booleans: no element is false.\<close>

definition py_all :: "bool set \<Rightarrow> bool" where
  "py_all bs = (False \<notin> bs)"

definition match_ordered_strings :: "string \<Rightarrow> pattern list \<Rightarrow> bool" where
  "match_ordered_strings log targets = py_all (match_loop log targets {})"

definition re_strings :: "pattern list" where
  "re_strings =
     [ lits ''=== After Scenario:'',
       lits ''the server is currently unable to handle the request ''
         @ [One (Lit (CHR ''(''))] @ lits ''get projects'' @ [One Dot] @ lits ''project''
         @ [One Dot] @ lits ''openshift'' @ [One Dot] @ lits ''io'' @ [One (Lit (CHR '')''))],
       lits ''RuntimeError: error getting projects by user'' ]"

definition issue_description :: string where
  "issue_description = ''After scenario RuntimeError raised while getting project during cleanup.''"

definition issue_fail_to_get_project_during_cleanup :: "string \<Rightarrow> string option" where
  "issue_fail_to_get_project_during_cleanup log_text =
     (if match_ordered_strings log_text re_strings then Some issue_description else None)"

subsection \<open>get_file_from_url\<close>

text \<open>
  The network is a parameter: \<open>net url i\<close> is what the request of loop iteration \<open>i\<close>
  for \<open>url\<close> does, namely deliver and decode a body, raise \<open>IncompleteRead\<close>, or
  raise something else. The model returns, beside the result, the list of the requests
  it has sent.
\<close>

datatype fetch_outcome = Content string | IncompleteRead | Failure error

type_synonym urlopen = "string \<Rightarrow> nat \<Rightarrow> fetch_outcome"

text \<open>\<open>return content\<close>: the local name is bound only after a successful read.\<close>

definition return_content :: "string option \<Rightarrow> error + string" where
  "return_content content = (case content of None \<Rightarrow> Inl UnboundLocalError | Some c \<Rightarrow> Inr c)"

fun fetch_loop :: "urlopen \<Rightarrow> string \<Rightarrow> nat list \<Rightarrow> string option \<Rightarrow> string list
                   \<Rightarrow> (error + string) \<times> string list" where
  "fetch_loop net url [] content reqs = (return_content content, reqs)"
| "fetch_loop net url (i # rest) content reqs =
     (case net url i of
        Content c \<Rightarrow> (return_content (Some c), reqs @ [url])
      | IncompleteRead \<Rightarrow> fetch_loop net url rest content (reqs @ [url])
      | Failure e \<Rightarrow> (Inl e, reqs @ [url]))"

definition get_file_from_url :: "urlopen \<Rightarrow> string \<Rightarrow> (error + string) \<times> string list" where
  "get_file_from_url net url = fetch_loop net url [0, 1, 2] None []"

subsection \<open>get_issue_methods and find_issues\<close>

text \<open>
  The attributes of an \<open>IssuesFinder\<close> are a list of names with their values, in the
  order the class body and \<open>__init__\<close> bind them (a later binding of a name replaces an
  earlier one). An attribute is a detector, called with the log text, or anything else,
  and calling that with one argument raises \<open>TypeError\<close>.
\<close>

type_synonym detector = "string \<Rightarrow> string option"

datatype attr = Detector detector | NotADetector

type_synonym namespace = "(string \<times> attr) list"

definition startswith :: "string \<Rightarrow> string \<Rightarrow> bool" where
  "startswith s p = (take (length p) s = p)"

text \<open>\<open>dir\<close> lists the names of the attributes, each once, in ascending order.\<close>

definition dir_names :: "namespace \<Rightarrow> string list" where
  "dir_names ns = sort (remdups (map fst ns))"

definition getattr :: "namespace \<Rightarrow> string \<Rightarrow> attr option" where
  "getattr ns name = map_of (rev ns) name"

definition get_issue_methods :: "namespace \<Rightarrow> attr list" where
  "get_issue_methods ns =
     (let names = filter (\<lambda>name. startswith name ''issue_'') (dir_names ns)
      in List.map_filter (getattr ns) names)"

definition IssuesFinder_attrs :: namespace where
  "IssuesFinder_attrs =
     [ (''__init__'', NotADetector),
       (''get_issue_methods'', NotADetector),
       (''find_issues'', NotADetector),
       (''get_file_from_url'', NotADetector),
       (''match_ordered_strings'', NotADetector),
       (''issue_fail_to_get_project_during_cleanup'',
          Detector issue_fail_to_get_project_during_cleanup),
       (''issues_found'', NotADetector) ]"

record IssuesFinder =
  issues_found :: "string list"

definition IssuesFinder_init :: IssuesFinder where
  "IssuesFinder_init = \<lparr>issues_found = []\<rparr>"

text \<open>The dictionary \<open>failed_test_attrs\<close>; the key \<open>known_issues\<close> may be absent.\<close>

record failed_test_attrs =
  fta_case :: string
  fta_logs :: "string option"
  fta_profile :: string
  fta_known_issues :: "string list option"

fun run_issue_methods :: "attr list \<Rightarrow> string \<Rightarrow> string list \<Rightarrow> error + string list" where
  "run_issue_methods [] log_text found = Inr found"
| "run_issue_methods (m # ms) log_text found =
     (case m of
        NotADetector \<Rightarrow> Inl TypeError
      | Detector issue_method \<Rightarrow>
          (case issue_method log_text of
             None \<Rightarrow> run_issue_methods ms log_text found
           | Some known_issue \<Rightarrow> run_issue_methods ms log_text (found @ [known_issue])))"

text \<open>
  \<open>find_issues\<close> returns the list \<open>self.issues_found\<close> and leaves it, extended, in
  the instance: the result is the returned list and the instance after the call.
\<close>

definition find_issues :: "namespace \<Rightarrow> urlopen \<Rightarrow> IssuesFinder \<Rightarrow> failed_test_attrs
                           \<Rightarrow> error + (string list \<times> IssuesFinder)" where
  "find_issues cls net self test_info =
     (case fta_logs test_info of
        None \<Rightarrow> Inr (issues_found self, self)
      | Some url \<Rightarrow>
          (case fst (get_file_from_url net url) of
             Inl e \<Rightarrow> Inl e
           | Inr log_text \<Rightarrow>
               (case run_issue_methods (get_issue_methods cls) log_text (issues_found self) of
                  Inl e \<Rightarrow> Inl e
                | Inr found \<Rightarrow> Inr (found, self\<lparr>issues_found := found\<rparr>))))"

section \<open>The functions of the report\<close>

text \<open>\<open>m.groups()[0]\<close> for a match \<open>m\<close>.\<close>

definition group0 :: "string list \<Rightarrow> error + string" where
  "group0 caps = (case caps of [] \<Rightarrow> Inl IndexError | g # gs \<Rightarrow> Inr g)"

text \<open>\<open>m.groups()\<close> where \<open>m\<close> is the value of \<open>re.search\<close>, which may be \<open>None\<close>.\<close>

definition groups0 :: "string list option \<Rightarrow> error + string" where
  "groups0 m = (case m of None \<Rightarrow> Inl AttributeError | Some caps \<Rightarrow> group0 caps)"

definition link_pattern :: pattern where
  "link_pattern = [GOpen] @ lits ''http'' @ [Star Dot, GClose]"

definition get_link_to_log :: "string \<Rightarrow> error + string option" where
  "get_link_to_log content =
     (case re_search link_pattern content of
        None \<Rightarrow> Inr None
      | Some caps \<Rightarrow> (case group0 caps of Inl e \<Rightarrow> Inl e | Inr g \<Rightarrow> Inr (Some g)))"

text \<open>An entry of the list \<open>customFields.Custom\<close>: its \<open>key\<close> and its \<open>value.content\<close>.\<close>

record custom_field =
  cf_key :: string
  cf_content :: string

definition script_pattern :: pattern where
  "script_pattern =
     lits ''file: '' @ [GOpen] @ lits ''features'' @ [Star Dot] @ lits ''feature''
       @ [GClose, One (Lit (CHR 0x0A))]"

text \<open>
  The loop of \<open>get_automation_script\<close> stops at the first field whose key is
  \<open>automation_script\<close>; when no field has that key the name \<open>automation_script\<close> is
  still unbound at the \<open>return\<close>.
\<close>

fun get_automation_script :: "custom_field list \<Rightarrow> error + string" where
  "get_automation_script [] = Inl UnboundLocalError"
| "get_automation_script (cf # cfields) =
     (if cf_key cf = ''automation_script''
      then groups0 (re_search script_pattern (cf_content cf))
      else get_automation_script cfields)"

text \<open>
  The shell is a parameter: a command either exits with a non-zero status
  (\<open>CalledProcessError\<close>), or prints bytes that decode to a text, or prints bytes that do
  not decode. \<open>home\<close> is the value of \<open>BUSHSLICER_HOME\<close>, formatted as \<open>None\<close> when unset.
\<close>

datatype proc_result = CalledProcessError | Output string | Undecodable

type_synonym shell = "string \<Rightarrow> proc_result"

definition format_env :: "string option \<Rightarrow> string" where
  "format_env v = (case v of None \<Rightarrow> ''None'' | Some s \<Rightarrow> s)"

definition rstrip :: "string \<Rightarrow> string" where
  "rstrip s = rev (dropWhile isspace (rev s))"

definition owner_pattern :: pattern where
  "owner_pattern =
     lits ''author'' @ [Star Space, GOpen, Star Dot, GClose] @ lits ''@redhat''
       @ [One Dot] @ lits ''com''"

definition owner_command :: "string option \<Rightarrow> string \<Rightarrow> string \<Rightarrow> string" where
  "owner_command home ascript testid =
     ''egrep -B 1 '' @ testid @ '' '' @ (format_env home @ ''/'' @ ascript) @ '' | grep author''"

definition get_owner :: "string option \<Rightarrow> shell \<Rightarrow> string \<Rightarrow> string \<Rightarrow> error + string" where
  "get_owner home sh ascript testid =
     (case sh (owner_command home ascript testid) of
        CalledProcessError \<Rightarrow> Inr ''Not found''
      | Undecodable \<Rightarrow> Inl UnicodeDecodeError
      | Output out \<Rightarrow> groups0 (re_search owner_pattern (rstrip out)))"

text \<open>Lines 169 to 171 of \<open>main\<close>: the profile of a run, from its title.\<close>

definition title_pattern :: pattern where
  "title_pattern = [Star Dot] @ lits '' - '' @ [GOpen, Star Dot, GClose, Eol]"

definition extract_profile :: "string \<Rightarrow> error + string" where
  "extract_profile title = groups0 (re_search title_pattern title)"

subsection \<open>The report\<close>

text \<open>
  \<open>report_struct\<close> is one dictionary: the key \<open>version\<close> holds a string, an owner's key
  holds the dictionary of that owner's scripts, and each script holds the dictionary of
  its cases. A dictionary is an association list in insertion order; \<open>AList.update\<close>
  replaces the value of a key that is present and appends a key that is not.
\<close>

type_synonym cases = "(string \<times> failed_test_attrs) list"

type_synonym scripts = "(string \<times> cases) list"

datatype topval = VStr string | VDict scripts

type_synonym report = "(string \<times> topval) list"

text \<open>
  Lines 194 to 209 of \<open>main\<close>. \<open>d.get(k, 0)\<close> is tested for truth: a key that is absent
  and a key whose value is empty both take the \<open>else\<close> branch. A string has no method
  \<open>get\<close>. The dictionary \<open>failed_test_attrs\<close> always has three keys and is true.
\<close>

definition insert_record :: "report \<Rightarrow> string \<Rightarrow> string \<Rightarrow> string \<Rightarrow> failed_test_attrs
                             \<Rightarrow> error + report" where
  "insert_record report_struct owner automation_script tid attrs =
     (let fresh = AList.update owner (VDict [(automation_script, [(tid, attrs)])]) report_struct
      in case map_of report_struct owner of
           None \<Rightarrow> Inr fresh
         | Some (VStr s) \<Rightarrow> if s = [] then Inr fresh else Inl AttributeError
         | Some (VDict ss) \<Rightarrow>
             if ss = [] then Inr fresh
             else
               (case map_of ss automation_script of
                  None \<Rightarrow>
                    Inr (AList.update owner
                           (VDict (AList.update automation_script [(tid, attrs)] ss)) report_struct)
                | Some cs \<Rightarrow>
                    if cs = [] then
                      Inr (AList.update owner
                             (VDict (AList.update automation_script [(tid, attrs)] ss)) report_struct)
                    else
                      (case map_of cs tid of
                         Some old \<Rightarrow>
                           Inr (AList.update owner
                                  (VDict (AList.update automation_script
                                            (AList.update tid attrs cs) ss)) report_struct)
                       | None \<Rightarrow>
                           Inr (AList.update owner
                                  (VDict (AList.update automation_script
                                            (AList.update tid attrs cs) ss)) report_struct))))"

text \<open>The record at a path of the report, if there is one.\<close>

definition lookup3 :: "report \<Rightarrow> string \<Rightarrow> string \<Rightarrow> string \<Rightarrow> failed_test_attrs option" where
  "lookup3 report_struct owner automation_script tid =
     (case map_of report_struct owner of
        Some (VDict ss) \<Rightarrow>
          (case map_of ss automation_script of
             Some cs \<Rightarrow> map_of cs tid
           | None \<Rightarrow> None)
      | _ \<Rightarrow> None)"

subsection \<open>main\<close>

record test_record =
  tr_result :: string
  tr_comment :: string
  tr_custom :: "custom_field list"
  tr_id :: string

record testrun =
  run_title :: string
  run_records :: "test_record list"

text \<open>
  What \<open>main\<close> reads from outside: the environment variable, the shell of
  \<open>get_owner\<close>, the network, and \<open>get_testrun_json\<close>, which gives the data of a run or
  raises.
\<close>

record world =
  w_home :: "string option"
  w_shell :: shell
  w_net :: urlopen
  w_testrun :: "string \<Rightarrow> error + testrun"

text \<open>The body of the loop over the records of a run (lines 173 to 209).\<close>

definition process_record :: "world \<Rightarrow> string \<Rightarrow> report \<Rightarrow> test_record \<Rightarrow> error + report" where
  "process_record w prof report_struct r =
     (if tr_result r = ''Failed'' then
        (case get_link_to_log (tr_comment r) of
           Inl e \<Rightarrow> Inl e
         | Inr linkto_logs \<Rightarrow>
        (case get_automation_script (tr_custom r) of
           Inl e \<Rightarrow> Inl e
         | Inr automation_script \<Rightarrow>
        (case get_owner (w_home w) (w_shell w) automation_script (tr_id r) of
           Inl e \<Rightarrow> Inl e
         | Inr owner \<Rightarrow>
        (let attrs = \<lparr>fta_case = tr_id r, fta_logs = linkto_logs, fta_profile = prof,
                       fta_known_issues = None\<rparr>
         in case find_issues IssuesFinder_attrs (w_net w) IssuesFinder_init attrs of
              Inl e \<Rightarrow> Inl e
            | Inr (issues, finder) \<Rightarrow>
                insert_record report_struct owner automation_script (tr_id r)
                  (if issues \<noteq> [] then attrs\<lparr>fta_known_issues := Some issues\<rparr> else attrs)))))
      else Inr report_struct)"

fun process_records :: "world \<Rightarrow> string \<Rightarrow> report \<Rightarrow> test_record list \<Rightarrow> error + report" where
  "process_records w prof report_struct [] = Inr report_struct"
| "process_records w prof report_struct (r # rs) =
     (case process_record w prof report_struct r of
        Inl e \<Rightarrow> Inl e
      | Inr report_struct' \<Rightarrow> process_records w prof report_struct' rs)"

fun process_runs :: "world \<Rightarrow> report \<Rightarrow> string list \<Rightarrow> error + report" where
  "process_runs w report_struct [] = Inr report_struct"
| "process_runs w report_struct (run # runs) =
     (case w_testrun w run of
        Inl e \<Rightarrow> Inl e
      | Inr output \<Rightarrow>
          (case extract_profile (run_title output) of
             Inl e \<Rightarrow> Inl e
           | Inr prof \<Rightarrow>
               (case process_records w prof report_struct (run_records output) of
                  Inl e \<Rightarrow> Inl e
                | Inr report_struct' \<Rightarrow> process_runs w report_struct' runs)))"

text \<open>
  \<open>main\<close>: the value is the report handed to \<open>write_output\<close>, or the exception that
  ends the program before anything is written. \<open>--runs\<close> is optional, and a missing
  list cannot be iterated.
\<close>

definition main :: "world \<Rightarrow> string list option \<Rightarrow> string \<Rightarrow> error + report" where
  "main w runs version =
     (case runs of
        None \<Rightarrow> Inl TypeError
      | Some rs \<Rightarrow> process_runs w [(''version'', VStr version)] rs)"

section \<open>Notions used in the statements\<close>

text \<open>
  What an attribute gives when it is called with the log text and raises nothing, the
  attributes whose names begin with \<open>issue_\<close> in the order the class binds them (the
  registration order of the rules), and the descriptions of the rules that match, in
  that order.
\<close>

definition apply_attr :: "string \<Rightarrow> attr \<Rightarrow> string option" where
  "apply_attr log_text a = (case a of Detector d \<Rightarrow> d log_text | NotADetector \<Rightarrow> None)"

definition is_detector :: "attr \<Rightarrow> bool" where
  "is_detector a = (case a of Detector d \<Rightarrow> True | NotADetector \<Rightarrow> False)"

definition issue_rules :: "namespace \<Rightarrow> namespace" where
  "issue_rules ns = filter (\<lambda>(name, a). startswith name ''issue_'') ns"

definition registered_matches :: "namespace \<Rightarrow> string \<Rightarrow> string list" where
  "registered_matches ns log_text =
     List.map_filter (\<lambda>(name, a). apply_attr log_text a) (issue_rules ns)"

text \<open>
  The text after the last occurrence of a separator in a text, if the separator occurs:
  the occurrences are looked for from the right.
\<close>

fun text_after_last :: "string \<Rightarrow> string \<Rightarrow> string option" where
  "text_after_last sep [] = (if sep = [] then Some [] else None)"
| "text_after_last sep (c # cs) =
     (case text_after_last sep cs of
        Some t \<Rightarrow> Some t
      | None \<Rightarrow>
          if take (length sep) (c # cs) = sep then Some (drop (length sep) (c # cs)) else None)"

text \<open>
  A text contains the pattern \<open>file: (features.*feature)\<close>: the words
  \<open>file: features\<close>, then characters of one line, then \<open>feature\<close>.
\<close>

definition contains_script_path :: "string \<Rightarrow> bool" where
  "contains_script_path s =
     (\<exists>pre mid post. s = pre @ ''file: features'' @ mid @ ''feature'' @ post
                      \<and> CHR 0x0A \<notin> set mid)"

section \<open>Sample inputs\<close>

text \<open>A network on which every read is cut short, and one whose second request succeeds.\<close>

definition always_truncated :: urlopen where
  "always_truncated url i = IncompleteRead"

definition second_try :: urlopen where
  "second_try url i = (if i = 1 then Content ''log'' else IncompleteRead)"

text \<open>
  A run with one failed record, a shell in which the owner lookup exits with a non-zero
  status, and a network that delivers a short log at the first request.
\<close>

definition sample_record :: test_record where
  "sample_record =
     \<lparr>tr_result = ''Failed'',
      tr_comment = ''log: http://ci/log'',
      tr_custom = [\<lparr>cf_key = ''caseautomation'', cf_content = ''automated''\<rparr>,
                   \<lparr>cf_key = ''automation_script'',
                    cf_content = ''file: features/cli/oc.feature\<newline>''\<rparr>],
      tr_id = ''T1''\<rparr>"

definition serve :: "string \<Rightarrow> urlopen" where
  "serve text url i = Content text"

definition sample_world :: world where
  "sample_world =
     \<lparr>w_home = Some ''/home/ci'',
      w_shell = (\<lambda>cmd. CalledProcessError),
      w_net = serve ''all tests passed'',
      w_testrun = (\<lambda>run. Inr \<lparr>run_title = ''Nightly 4.14 - aws-ipi'',
                                run_records = [sample_record]\<rparr>)\<rparr>"

text \<open>The same run in a shell where the author of the script is \<open>version@redhat.com\<close>.\<close>

definition version_world :: world where
  "version_world = sample_world\<lparr>w_shell := (\<lambda>cmd. Output ''# @author version@redhat.com\<newline>'')\<rparr>"

text \<open>
  A class with two rules that match every log, the rule \<open>issue_timeout\<close> written
  before the rule \<open>issue_quota\<close>.
\<close>

definition two_rules :: namespace where
  "two_rules =
     [ (''issue_timeout'', Detector (\<lambda>log_text. Some ''timeout'')),
       (''issue_quota'', Detector (\<lambda>log_text. Some ''quota'')) ]"

definition sample_info :: failed_test_attrs where
  "sample_info =
     \<lparr>fta_case = ''T1'', fta_logs = Some ''http://ci/log'', fta_profile = ''aws-ipi'',
      fta_known_issues = None\<rparr>"

text \<open>A log with the three lines of the registered rule, last pattern first.\<close>

definition matching_log :: string where
  "matching_log =
     ''RuntimeError: error getting projects by user\<newline>''
     @ ''E the server is currently unable to handle the request (get projects.project.openshift.io)\<newline>''
     @ ''=== After Scenario: cleanup ===\<newline>''"

text \<open>A network that delivers a text at the third request only.\<close>

definition serve_late :: "string \<Rightarrow> urlopen" where
  "serve_late text url i = (if i = 2 then Content text else IncompleteRead)"

text \<open>A log that lacks the third line of the registered rule.\<close>

definition partial_log :: string where
  "partial_log =
     ''=== After Scenario: cleanup ===\<newline>''
     @ ''E the server is currently unable to handle the request (get projects.project.openshift.io)\<newline>''"

text \<open>
  A world whose run has a title without the separator, and two failed records: one
  without the field \<open>automation_script\<close>, one whose field names no feature file.
\<close>

definition untitled_world :: world where
  "untitled_world =
     sample_world\<lparr>w_testrun := (\<lambda>run. Inr \<lparr>run_title = ''Nightly 4.14'',
                                               run_records = [sample_record]\<rparr>)\<rparr>"

definition unscripted_record :: test_record where
  "unscripted_record =
     sample_record\<lparr>tr_custom := [\<lparr>cf_key = ''caseautomation'', cf_content = ''automated''\<rparr>]\<rparr>"

definition manual_record :: test_record where
  "manual_record =
     sample_record\<lparr>tr_custom := [\<lparr>cf_key = ''automation_script'', cf_content = ''manual''\<rparr>]\<rparr>"

section \<open>Properties\<close>

text \<open>
  C10. With an empty list of target patterns \<open>match_ordered_strings\<close> returns True for
  every log text, the empty one included: the set of flags stays empty and \<open>all\<close> of
  an empty set is true.
\<close>

theorem match_ordered_strings_no_targets:
  "match_ordered_strings log [] = True"
  by (simp add: match_ordered_strings_def py_all_def)

text \<open>
  C2. \<open>get_file_from_url\<close> sends at most three requests, each for the whole \<open>url\<close>.
  When every read is cut short it sends exactly three and never a fourth; when request
  \<open>k\<close> is the first to succeed it returns that content after \<open>k + 1\<close> requests and
  sends no more.
\<close>

theorem get_file_from_url_retry_bound:
  "length (snd (get_file_from_url net url)) \<le> 3
   \<and> snd (get_file_from_url net url) = replicate (length (snd (get_file_from_url net url))) url
   \<and> ((\<forall>i<3. net url i = IncompleteRead) \<longrightarrow>
        snd (get_file_from_url net url) = [url, url, url])
   \<and> (\<forall>k c. k < 3 \<and> (\<forall>i<k. net url i = IncompleteRead) \<and> net url k = Content c \<longrightarrow>
        get_file_from_url net url = (Inr c, replicate (Suc k) url))"
proof (intro conjI allI impI)
  show "length (snd (get_file_from_url net url)) \<le> 3"
    unfolding get_file_from_url_def
    by (cases "net url 0"; cases "net url 1"; cases "net url 2") simp_all
  show "snd (get_file_from_url net url) = replicate (length (snd (get_file_from_url net url))) url"
    unfolding get_file_from_url_def
    by (cases "net url 0"; cases "net url 1"; cases "net url 2") simp_all
next
  assume a: "\<forall>i<3. net url i = IncompleteRead"
  have "net url 0 = IncompleteRead" "net url 1 = IncompleteRead" "net url 2 = IncompleteRead"
    using a by simp_all
  then show "snd (get_file_from_url net url) = [url, url, url]"
    by (simp add: get_file_from_url_def)
next
  fix k c
  assume a: "k < 3 \<and> (\<forall>i<k. net url i = IncompleteRead) \<and> net url k = Content c"
  then consider "k = 0" | "k = 1" | "k = 2" by arith
  then show "get_file_from_url net url = (Inr c, replicate (Suc k) url)"
  proof cases
    case 1
    with a show ?thesis by (simp add: get_file_from_url_def return_content_def)
  next
    case 2
    with a have "net url 0 = IncompleteRead" "net url 1 = Content c" by simp_all
    with 2 show ?thesis by (simp add: get_file_from_url_def return_content_def)
  next
    case 3
    with a have "net url 0 = IncompleteRead" "net url 1 = IncompleteRead" "net url 2 = Content c"
      by simp_all
    with 3 show ?thesis
      by (simp add: get_file_from_url_def return_content_def numeral_3_eq_3)
  qed
qed

theorem get_file_from_url_retry_bound_witness:
  "snd (get_file_from_url always_truncated ''http://ci/log'')
     = [''http://ci/log'', ''http://ci/log'', ''http://ci/log'']
   \<and> get_file_from_url second_try ''http://ci/log''
     = (Inr ''log'', [''http://ci/log'', ''http://ci/log''])"
proof -
  have t: "\<forall>i<3. always_truncated ''http://ci/log'' i = IncompleteRead"
    by (simp add: always_truncated_def)
  have s: "(1::nat) < 3 \<and> (\<forall>i<1. second_try ''http://ci/log'' i = IncompleteRead)
             \<and> second_try ''http://ci/log'' 1 = Content ''log''"
    by (simp add: second_try_def)
  from get_file_from_url_retry_bound [of always_truncated "''http://ci/log''"] t
  have 1: "snd (get_file_from_url always_truncated ''http://ci/log'')
     = [''http://ci/log'', ''http://ci/log'', ''http://ci/log'']" by blast
  from get_file_from_url_retry_bound [of second_try "''http://ci/log''"] s
  have "get_file_from_url second_try ''http://ci/log''
          = (Inr ''log'', replicate (Suc 1) ''http://ci/log'')"
    by blast
  with 1 show ?thesis by (simp add: numeral_2_eq_2)
qed

text \<open>
  C3. The claim is that three truncated reads end in a normal return. In the code the
  name \<open>content\<close> is then still unbound when \<open>return content\<close> runs: after the third
  request the call raises \<open>UnboundLocalError\<close>.
\<close>

theorem get_file_from_url_all_truncated:
  "get_file_from_url always_truncated url = (Inl UnboundLocalError, [url, url, url])"
  by (simp add: get_file_from_url_def always_truncated_def return_content_def)

subsection \<open>Inserting into the report\<close>

lemma insert_record_succeeds:
  "(\<forall>s. s \<noteq> [] \<longrightarrow> map_of rs owner \<noteq> Some (VStr s)) \<Longrightarrow>
   \<exists>rs'. insert_record rs owner script tid a = Inr rs'"
  by (auto simp: insert_record_def Let_def split: option.splits topval.splits)

lemma insert_record_lookup:
  "insert_record rs owner script tid a = Inr rs' \<Longrightarrow> lookup3 rs' owner script tid = Some a"
  by (auto simp: insert_record_def lookup3_def Let_def update_conv'
           split: option.splits topval.splits if_splits)

lemma insert_record_other_paths:
  "insert_record rs owner script tid a = Inr rs' \<Longrightarrow>
   (owner', script', tid') \<noteq> (owner, script, tid) \<Longrightarrow>
   lookup3 rs' owner' script' tid' = lookup3 rs owner' script' tid'"
  by (auto simp: insert_record_def lookup3_def Let_def update_conv'
           split: option.splits topval.splits if_splits)

lemma insert_record_other_keys:
  "insert_record rs owner script tid a = Inr rs' \<Longrightarrow> k \<noteq> owner \<Longrightarrow>
   map_of rs' k = map_of rs k"
  by (auto simp: insert_record_def Let_def update_conv'
           split: option.splits topval.splits if_splits)

lemma insert_record_owner_dict:
  "insert_record rs owner script tid a = Inr rs' \<Longrightarrow> \<exists>ss. map_of rs' owner = Some (VDict ss)"
  by (auto simp: insert_record_def Let_def update_conv'
           split: option.splits topval.splits if_splits)

text \<open>
  Where the first of two inserts at one path succeeds, the second succeeds too, the path
  then holds the second payload alone, and every other path holds what it held before.
\<close>

lemma insert_record_twice:
  assumes "insert_record rs owner script tid a1 = Inr r1"
  shows "\<exists>r2. insert_record r1 owner script tid a2 = Inr r2
           \<and> lookup3 r2 owner script tid = Some a2
           \<and> (\<forall>owner' script' tid'. (owner', script', tid') \<noteq> (owner, script, tid) \<longrightarrow>
                lookup3 r2 owner' script' tid' = lookup3 rs owner' script' tid')"
proof -
  from insert_record_owner_dict [OF assms] obtain ss where "map_of r1 owner = Some (VDict ss)" ..
  then have "\<forall>s. s \<noteq> [] \<longrightarrow> map_of r1 owner \<noteq> Some (VStr s)" by simp
  from insert_record_succeeds [OF this] obtain r2
    where r2: "insert_record r1 owner script tid a2 = Inr r2" by blast
  show ?thesis
    using r2 insert_record_lookup [OF r2] insert_record_other_paths [OF r2]
      insert_record_other_paths [OF assms] by metis
qed

text \<open>
  C4. The claim is last-write-wins at every path of every report. The report holds the
  version string under the key \<open>version\<close> of the same dictionary that holds the
  owners, and for the owner \<open>version\<close> the insert calls \<open>get\<close> on that string: it
  raises \<open>AttributeError\<close> and nothing is inserted. \<open>main\<close> reaches this when the
  author of a failed test's script is \<open>version@redhat.com\<close>.
\<close>

theorem insert_record_version_owner:
  "insert_record [(''version'', VStr ''4.14'')] ''version'' ''s.feature'' ''T1'' attrs
     = Inl AttributeError
   \<and> get_owner (w_home version_world) (w_shell version_world) ''features/cli/oc.feature'' ''T1''
     = Inr ''version''
   \<and> main version_world (Some [''20210909-0851'']) ''4.14'' = Inl AttributeError"
proof (intro conjI)
  show "insert_record [(''version'', VStr ''4.14'')] ''version'' ''s.feature'' ''T1'' attrs
          = Inl AttributeError"
    by (simp add: insert_record_def)
  show "get_owner (w_home version_world) (w_shell version_world) ''features/cli/oc.feature'' ''T1''
          = Inr ''version''"
    by code_simp
  show "main version_world (Some [''20210909-0851'']) ''4.14'' = Inl AttributeError"
    by code_simp
qed

text \<open>
  C7. When the shell command of the owner lookup fails, \<open>get_owner\<close> returns
  \<open>Not found\<close>, and a failed record whose log is classified without an exception is
  put into the report under the owner key \<open>Not found\<close>.
\<close>

theorem owner_lookup_failure_is_soft:
  assumes "w_shell w (owner_command (w_home w) ascript (tr_id r)) = CalledProcessError"
  shows "get_owner (w_home w) (w_shell w) ascript (tr_id r) = Inr ''Not found''
     \<and> (tr_result r = ''Failed''
        \<and> get_link_to_log (tr_comment r) = Inr link
        \<and> get_automation_script (tr_custom r) = Inr ascript
        \<and> find_issues IssuesFinder_attrs (w_net w) IssuesFinder_init
             \<lparr>fta_case = tr_id r, fta_logs = link, fta_profile = prof, fta_known_issues = None\<rparr>
            = Inr (issues, finder)
        \<and> (\<forall>s. map_of report_struct ''Not found'' \<noteq> Some (VStr s))
        \<longrightarrow> (\<exists>report'. process_record w prof report_struct r = Inr report'
              \<and> lookup3 report' ''Not found'' ascript (tr_id r)
                  = Some \<lparr>fta_case = tr_id r, fta_logs = link, fta_profile = prof,
                          fta_known_issues = (if issues \<noteq> [] then Some issues else None)\<rparr>))"
proof (intro conjI impI)
  show owner: "get_owner (w_home w) (w_shell w) ascript (tr_id r) = Inr ''Not found''"
    using assms by (simp add: get_owner_def)
  assume h: "tr_result r = ''Failed''
        \<and> get_link_to_log (tr_comment r) = Inr link
        \<and> get_automation_script (tr_custom r) = Inr ascript
        \<and> find_issues IssuesFinder_attrs (w_net w) IssuesFinder_init
             \<lparr>fta_case = tr_id r, fta_logs = link, fta_profile = prof, fta_known_issues = None\<rparr>
            = Inr (issues, finder)
        \<and> (\<forall>s. map_of report_struct ''Not found'' \<noteq> Some (VStr s))"
  let ?a = "\<lparr>fta_case = tr_id r, fta_logs = link, fta_profile = prof,
             fta_known_issues = (if issues \<noteq> [] then Some issues else None)\<rparr>"
  from h have "\<forall>s. s \<noteq> [] \<longrightarrow> map_of report_struct ''Not found'' \<noteq> Some (VStr s)" by simp
  from insert_record_succeeds [OF this] obtain report'
    where ins: "insert_record report_struct ''Not found'' ascript (tr_id r) ?a = Inr report'"
    by blast
  have "process_record w prof report_struct r = Inr report'"
    using h owner ins by (cases "issues = []") (simp_all add: process_record_def Let_def)
  with insert_record_lookup [OF ins]
  show "\<exists>report'. process_record w prof report_struct r = Inr report'
              \<and> lookup3 report' ''Not found'' ascript (tr_id r) = Some ?a"
    by blast
qed

theorem owner_lookup_failure_is_soft_witness:
  "get_owner (w_home sample_world) (w_shell sample_world) ''features/cli/oc.feature'' ''T1''
     = Inr ''Not found''
   \<and> (\<exists>report'. process_record sample_world ''aws-ipi'' [(''version'', VStr ''4.14'')] sample_record
                     = Inr report'
          \<and> lookup3 report' ''Not found'' ''features/cli/oc.feature'' ''T1''
              = Some \<lparr>fta_case = ''T1'', fta_logs = Some ''http://ci/log'',
                      fta_profile = ''aws-ipi'', fta_known_issues = None\<rparr>)"
proof -
  have id: "tr_id sample_record = ''T1''"
    by (simp add: sample_record_def)
  have sh: "w_shell sample_world
              (owner_command (w_home sample_world) ''features/cli/oc.feature'' (tr_id sample_record))
            = CalledProcessError"
    by (simp add: sample_world_def)
  have h1: "tr_result sample_record = ''Failed''"
    by (simp add: sample_record_def)
  have h2: "get_link_to_log (tr_comment sample_record) = Inr (Some ''http://ci/log'')"
    by code_simp
  have h3: "get_automation_script (tr_custom sample_record) = Inr ''features/cli/oc.feature''"
    by code_simp
  have h4: "find_issues IssuesFinder_attrs (w_net sample_world) IssuesFinder_init
              \<lparr>fta_case = tr_id sample_record, fta_logs = Some ''http://ci/log'',
                fta_profile = ''aws-ipi'', fta_known_issues = None\<rparr>
            = Inr ([], IssuesFinder_init)"
    by code_simp
  have h5: "\<forall>s. map_of [(''version'', VStr ''4.14'')] ''Not found'' \<noteq> Some (VStr s)"
    by simp
  from owner_lookup_failure_is_soft [OF sh, of "Some ''http://ci/log''" "''aws-ipi''" "[]"
         IssuesFinder_init "[(''version'', VStr ''4.14'')]"] h1 h2 h3 h4 h5
  show ?thesis
    unfolding id by simp
qed

subsection \<open>The loop over the issue methods\<close>

lemma run_issue_methods_detectors:
  "list_all is_detector ms \<Longrightarrow>
   run_issue_methods ms log_text found = Inr (found @ List.map_filter (apply_attr log_text) ms)"
proof (induction ms arbitrary: found)
  case Nil
  then show ?case by simp
next
  case (Cons m ms)
  then show ?case
    by (cases m) (auto simp: apply_attr_def is_detector_def split: option.splits)
qed

lemma run_issue_methods_append:
  "run_issue_methods ms log_text found = Inr r \<Longrightarrow>
   \<exists>m. r = found @ m \<and> (\<forall>found'. run_issue_methods ms log_text found' = Inr (found' @ m))"
proof (induction ms arbitrary: found r)
  case Nil
  then show ?case by simp
next
  case (Cons a ms)
  show ?case
  proof (cases a)
    case NotADetector
    with Cons.prems show ?thesis by simp
  next
    case (Detector d)
    show ?thesis
    proof (cases "d log_text")
      case None
      with Cons Detector show ?thesis by simp
    next
      case (Some k)
      with Cons.prems Detector have "run_issue_methods ms log_text (found @ [k]) = Inr r" by simp
      from Cons.IH [OF this] obtain m where
        m: "r = (found @ [k]) @ m" "\<forall>found'. run_issue_methods ms log_text found' = Inr (found' @ m)"
        by blast
      have "\<forall>found'. run_issue_methods (a # ms) log_text found' = Inr (found' @ (k # m))"
        using m(2) Detector Some by simp
      with m(1) show ?thesis by auto
    qed
  qed
qed

text \<open>
  Where no name is bound twice, the methods \<open>get_issue_methods\<close> returns are the
  \<open>issue_\<close> attributes of the class sorted by name.
\<close>

lemma sort_map_fst: "sort (map fst xs) = map fst (sort_key fst xs)"
proof (induction xs)
  case Nil
  then show ?case by simp
next
  case (Cons x xs)
  have "insort (fst x) (map fst ys) = map fst (insort_key fst x ys)" for ys :: "('a \<times> 'b) list"
    by (induction ys) auto
  with Cons show ?case by simp
qed

lemma map_filter_getattr:
  assumes "distinct (map fst ns)" "set ys \<subseteq> set ns"
  shows "List.map_filter (getattr ns) (map fst ys) = map snd ys"
  using assms(2)
proof (induction ys)
  case Nil
  then show ?case by simp
next
  case (Cons y ys)
  then have "(fst y, snd y) \<in> set (rev ns)" by auto
  moreover have "distinct (map fst (rev ns))" using assms(1) by (simp add: rev_map [symmetric])
  ultimately have "map_of (rev ns) (fst y) = Some (snd y)" by (rule map_of_is_SomeI [rotated])
  with Cons show ?case by (simp add: getattr_def)
qed

lemma get_issue_methods_sorted:
  assumes "distinct (map fst ns)"
  shows "get_issue_methods ns = map snd (issue_rules (sort_key fst ns))"
proof -
  have "filter (\<lambda>name. startswith name ''issue_'') (dir_names ns)
          = map fst (issue_rules (sort_key fst ns))"
    using assms
    by (simp add: dir_names_def distinct_remdups_id sort_map_fst filter_map issue_rules_def
          comp_def case_prod_unfold)
  moreover have "set (issue_rules (sort_key fst ns)) \<subseteq> set ns"
    by (auto simp: issue_rules_def)
  ultimately show ?thesis
    using map_filter_getattr [OF assms] by (simp add: get_issue_methods_def)
qed

text \<open>
  C5. The claim orders the output by the registration order of the rules and calls
  that the evaluation order. The code takes the rules from \<open>dir\<close>, which lists names
  in ascending order: a rule written first but named later is evaluated later. As
  amended: for a class that binds no name twice and whose \<open>issue_\<close> attributes are
  all detectors, and for a log text of any size, the output is what was found before
  followed by the descriptions of the rules that match, in the order in which the rules
  are evaluated, which is the ascending order of their names; the evaluation order is
  the registration order exactly when the rules are written in ascending order of
  their names.
\<close>

theorem find_issues_name_order:
  assumes "distinct (map fst cls)"
    and "list_all is_detector (map snd (issue_rules cls))"
    and "fta_logs test_info = Some url"
    and "fst (get_file_from_url net url) = Inr log_text"
  shows "find_issues cls net self test_info
           = Inr (issues_found self @ registered_matches (sort_key fst cls) log_text,
                  self\<lparr>issues_found :=
                         issues_found self @ registered_matches (sort_key fst cls) log_text\<rparr>)
         \<and> registered_matches (sort_key fst cls) log_text
             = List.map_filter (apply_attr log_text) (get_issue_methods cls)
         \<and> get_issue_methods cls = map snd (issue_rules (sort_key fst cls))
         \<and> sorted (map fst (issue_rules (sort_key fst cls)))
         \<and> (issue_rules (sort_key fst cls) = issue_rules cls)
             = sorted (map fst (issue_rules cls))
         \<and> (sorted (map fst (issue_rules cls)) \<longrightarrow>
              registered_matches (sort_key fst cls) log_text = registered_matches cls log_text)"
proof (intro conjI impI)
  have "set (issue_rules (sort_key fst cls)) = set (issue_rules cls)"
    by (simp add: issue_rules_def)
  with assms(2) have det: "list_all is_detector (map snd (issue_rules (sort_key fst cls)))"
    by (simp add: list_all_iff)
  have "List.map_filter (apply_attr log_text) (map snd xs)
          = List.map_filter (\<lambda>(name, a). apply_attr log_text a) xs" for xs :: namespace
    by (induction xs) (auto split: option.splits)
  then have evaluated:
    "List.map_filter (apply_attr log_text) (map snd (issue_rules (sort_key fst cls)))
          = registered_matches (sort_key fst cls) log_text"
    by (simp add: registered_matches_def)
  with run_issue_methods_detectors [OF det, of log_text "issues_found self"]
  show "find_issues cls net self test_info
           = Inr (issues_found self @ registered_matches (sort_key fst cls) log_text,
                  self\<lparr>issues_found :=
                         issues_found self @ registered_matches (sort_key fst cls) log_text\<rparr>)"
    using assms(3,4) by (simp add: find_issues_def get_issue_methods_sorted [OF assms(1)])
  show "registered_matches (sort_key fst cls) log_text
          = List.map_filter (apply_attr log_text) (get_issue_methods cls)"
    using evaluated by (simp add: get_issue_methods_sorted [OF assms(1)])
  show "get_issue_methods cls = map snd (issue_rules (sort_key fst cls))"
    using assms(1) by (rule get_issue_methods_sorted)
  have by_name: "issue_rules (sort_key fst cls) = sort_key fst (issue_rules cls)"
    by (simp add: issue_rules_def filter_sort)
  show "sorted (map fst (issue_rules (sort_key fst cls)))"
    unfolding by_name by (rule sorted_sort_key)
  show "(issue_rules (sort_key fst cls) = issue_rules cls) = sorted (map fst (issue_rules cls))"
  proof
    assume "issue_rules (sort_key fst cls) = issue_rules cls"
    then have "sort_key fst (issue_rules cls) = issue_rules cls"
      using by_name by simp
    then show "sorted (map fst (issue_rules cls))"
      using sorted_sort_key [of fst "issue_rules cls"] by simp
  next
    assume "sorted (map fst (issue_rules cls))"
    then show "issue_rules (sort_key fst cls) = issue_rules cls"
      unfolding by_name by (rule sort_key_id_if_sorted)
  qed
  assume "sorted (map fst (issue_rules cls))"
  then have "issue_rules (sort_key fst cls) = issue_rules cls"
    unfolding by_name by (rule sort_key_id_if_sorted)
  then show "registered_matches (sort_key fst cls) log_text = registered_matches cls log_text"
    by (simp add: registered_matches_def)
qed

theorem find_issues_name_order_witness:
  "find_issues two_rules (serve ''log'') IssuesFinder_init sample_info
     = Inr ([''quota'', ''timeout''], \<lparr>issues_found = [''quota'', ''timeout'']\<rparr>)"
proof -
  have 1: "distinct (map fst two_rules)"
    by (simp add: two_rules_def)
  have 2: "list_all is_detector (map snd (issue_rules two_rules))"
    by (simp add: two_rules_def issue_rules_def startswith_def is_detector_def)
  have 3: "fta_logs sample_info = Some ''http://ci/log''"
    by (simp add: sample_info_def)
  have 4: "fst (get_file_from_url (serve ''log'') ''http://ci/log'') = Inr ''log''"
    by (simp add: get_file_from_url_def serve_def return_content_def)
  have 5: "registered_matches (sort_key fst two_rules) ''log'' = [''quota'', ''timeout'']"
    by code_simp
  from find_issues_name_order [OF 1 2 3 4, of IssuesFinder_init]
  have "find_issues two_rules (serve ''log'') IssuesFinder_init sample_info
          = Inr (issues_found IssuesFinder_init @ registered_matches (sort_key fst two_rules) ''log'',
                 IssuesFinder_init\<lparr>issues_found :=
                   issues_found IssuesFinder_init
                     @ registered_matches (sort_key fst two_rules) ''log''\<rparr>)"
    by (rule conjunct1)
  then show ?thesis
    unfolding 5 by (simp add: IssuesFinder_init_def)
qed

theorem find_issues_registration_order_counterexample:
  "map fst (issue_rules two_rules) = [''issue_timeout'', ''issue_quota'']
   \<and> registered_matches two_rules ''log'' = [''timeout'', ''quota'']
   \<and> find_issues two_rules (serve ''log'') IssuesFinder_init sample_info
     = Inr ([''quota'', ''timeout''], \<lparr>issues_found = [''quota'', ''timeout'']\<rparr>)"
  by code_simp

text \<open>
  C6. The claim is that classifying the same log text twice gives the same sequence
  both times. \<open>find_issues\<close> appends to the list of its instance and returns that
  list, so a second call on the same instance returns the matches twice. As amended:
  called on a new \<open>IssuesFinder\<close>, as \<open>main\<close> does for every record, \<open>find_issues\<close>
  gives a result that depends on the log text alone; a second call on the same instance
  returns the first result followed by the same descriptions again.
\<close>

theorem find_issues_fresh_instance:
  assumes "fta_logs t1 = Some url1" and "fta_logs t2 = Some url2"
    and "fst (get_file_from_url net1 url1) = Inr log_text"
    and "fst (get_file_from_url net2 url2) = Inr log_text"
  shows "find_issues cls net1 IssuesFinder_init t1 = find_issues cls net2 IssuesFinder_init t2
         \<and> (\<forall>r1 s1. find_issues cls net1 IssuesFinder_init t1 = Inr (r1, s1) \<longrightarrow>
               find_issues cls net1 s1 t1 = Inr (r1 @ r1, s1\<lparr>issues_found := r1 @ r1\<rparr>))"
proof (intro conjI allI impI)
  show "find_issues cls net1 IssuesFinder_init t1 = find_issues cls net2 IssuesFinder_init t2"
    using assms by (simp add: find_issues_def)
next
  fix r1 s1
  assume a: "find_issues cls net1 IssuesFinder_init t1 = Inr (r1, s1)"
  then have run: "run_issue_methods (get_issue_methods cls) log_text [] = Inr r1"
    and s1: "issues_found s1 = r1"
    using assms(1,3) by (auto simp: find_issues_def IssuesFinder_init_def split: sum.splits)
  from run_issue_methods_append [OF run] obtain m where
    "r1 = [] @ m" "\<forall>found'. run_issue_methods (get_issue_methods cls) log_text found' = Inr (found' @ m)"
    by blast
  then have "run_issue_methods (get_issue_methods cls) log_text r1 = Inr (r1 @ r1)"
    by simp
  then show "find_issues cls net1 s1 t1 = Inr (r1 @ r1, s1\<lparr>issues_found := r1 @ r1\<rparr>)"
    using assms(1,3) s1 by (simp add: find_issues_def)
qed

theorem find_issues_fresh_instance_witness:
  "find_issues IssuesFinder_attrs (serve matching_log) IssuesFinder_init sample_info
     = find_issues IssuesFinder_attrs (serve_late matching_log) IssuesFinder_init sample_info
   \<and> find_issues IssuesFinder_attrs (serve matching_log)
        \<lparr>issues_found = [issue_description]\<rparr> sample_info
     = Inr ([issue_description, issue_description],
            \<lparr>issues_found = [issue_description, issue_description]\<rparr>)"
proof -
  have 1: "fta_logs sample_info = Some ''http://ci/log''"
    by (simp add: sample_info_def)
  have 2: "fst (get_file_from_url (serve matching_log) ''http://ci/log'') = Inr matching_log"
    by (simp add: get_file_from_url_def serve_def return_content_def)
  have 3: "fst (get_file_from_url (serve_late matching_log) ''http://ci/log'') = Inr matching_log"
    by (simp add: get_file_from_url_def serve_late_def return_content_def)
  have 4: "find_issues IssuesFinder_attrs (serve matching_log) IssuesFinder_init sample_info
             = Inr ([issue_description], \<lparr>issues_found = [issue_description]\<rparr>)"
    by code_simp
  from find_issues_fresh_instance [OF 1 1 2 3, of IssuesFinder_attrs] 4
  show ?thesis by simp
qed

theorem find_issues_twice_counterexample:
  "find_issues IssuesFinder_attrs (serve matching_log) IssuesFinder_init sample_info
     = Inr ([issue_description], \<lparr>issues_found = [issue_description]\<rparr>)
   \<and> find_issues IssuesFinder_attrs (serve matching_log)
        \<lparr>issues_found = [issue_description]\<rparr> sample_info
     = Inr ([issue_description, issue_description],
            \<lparr>issues_found = [issue_description, issue_description]\<rparr>)
   \<and> [issue_description, issue_description] \<noteq> [issue_description]"
  by code_simp

subsection \<open>The matcher\<close>

lemma match_items_lits:
  "match_items (lits p @ r) opens caps s
     = (if take (length p) s = p then match_items r opens caps (drop (length p) s) else None)"
proof (induction p arbitrary: s)
  case Nil
  then show ?case by (simp add: lits_def)
next
  case (Cons c p)
  have IH: "match_items (lits p @ r) opens caps t
     = (if take (length p) t = p then match_items r opens caps (drop (length p) t) else None)" for t
    using Cons.IH by simp
  show ?case
  proof (cases s)
    case Nil
    then show ?thesis by (simp add: lits_def)
  next
    case (Cons x xs)
    have "match_items (lits (c # p) @ r) opens caps (x # xs)
            = (if x = c then match_items (lits p @ r) opens caps xs else None)"
      by (simp add: lits_def)
    with IH [of xs] Cons show ?thesis by auto
  qed
qed

lemma match_items_star_sound:
  "match_items (Star a # r) opens caps s = Some m \<Longrightarrow>
   \<exists>u v. s = u @ v \<and> (\<forall>c\<in>set u. atom_ok a c) \<and> match_items r opens caps v = Some m"
proof (induction s)
  case Nil
  then show ?case by simp
next
  case (Cons x xs)
  show ?case
  proof (cases "atom_ok a x \<and> match_items (Star a # r) opens caps xs \<noteq> None")
    case True
    then obtain m' where m': "match_items (Star a # r) opens caps xs = Some m'" by auto
    with True Cons.prems have "m' = m" by simp
    with Cons.IH m' obtain u v where
      "xs = u @ v" "\<forall>c\<in>set u. atom_ok a c" "match_items r opens caps v = Some m" by blast
    with True have "x # xs = (x # u) @ v \<and> (\<forall>c\<in>set (x # u). atom_ok a c)
                     \<and> match_items r opens caps v = Some m" by simp
    then show ?thesis by blast
  next
    case False
    with Cons.prems have "match_items r opens caps (x # xs) = Some m"
      by (auto split: if_splits option.splits)
    then have "x # xs = [] @ (x # xs) \<and> (\<forall>c\<in>set []. atom_ok a c)
                 \<and> match_items r opens caps (x # xs) = Some m" by simp
    then show ?thesis by blast
  qed
qed

lemma match_items_star_greedy:
  assumes "\<forall>c\<in>set u. atom_ok a c"
    and "match_items r opens caps v = Some m"
    and "\<forall>u' v'. u @ v = u' @ v' \<and> length v' < length v \<longrightarrow> match_items r opens caps v' = None"
  shows "match_items (Star a # r) opens caps (u @ v) = Some m"
  using assms
proof (induction u)
  case Nil
  show ?case
  proof (cases v)
    case Nil
    with Nil.prems show ?thesis by simp
  next
    case (Cons x xs)
    have "match_items (Star a # r) opens caps xs = None"
    proof (rule ccontr)
      assume "match_items (Star a # r) opens caps xs \<noteq> None"
      then obtain m' where "match_items (Star a # r) opens caps xs = Some m'" by auto
      from match_items_star_sound [OF this] obtain u2 v2 where
        uv: "xs = u2 @ v2" "match_items r opens caps v2 = Some m'" by blast
      with Cons have "[] @ v = (x # u2) @ v2 \<and> length v2 < length v" by simp
      with Nil.prems(3) have "match_items r opens caps v2 = None" by blast
      with uv show False by simp
    qed
    with Nil.prems(2) Cons show ?thesis by simp
  qed
next
  case (Cons x u)
  have "\<forall>u' v'. u @ v = u' @ v' \<and> length v' < length v \<longrightarrow> match_items r opens caps v' = None"
  proof (intro allI impI)
    fix u' v'
    assume "u @ v = u' @ v' \<and> length v' < length v"
    then have "(x # u) @ v = (x # u') @ v' \<and> length v' < length v" by simp
    with Cons.prems(3) show "match_items r opens caps v' = None" by blast
  qed
  with Cons.IH Cons.prems have "match_items (Star a # r) opens caps (u @ v) = Some m" by simp
  with Cons.prems(1) show ?case by simp
qed

lemma re_search_Some:
  "re_search p s = Some caps \<Longrightarrow>
   \<exists>pre t rest. s = pre @ t \<and> match_items p [] [] t = Some (caps, rest)"
proof (induction s)
  case Nil
  then show ?case by (auto split: option.splits)
next
  case (Cons c cs)
  show ?case
  proof (cases "match_items p [] [] (c # cs)")
    case None
    with Cons.prems have "re_search p cs = Some caps" by simp
    from Cons.IH [OF this] obtain pre t rest where
      "cs = pre @ t" "match_items p [] [] t = Some (caps, rest)" by blast
    then have "c # cs = (c # pre) @ t \<and> match_items p [] [] t = Some (caps, rest)" by simp
    then show ?thesis by blast
  next
    case (Some m)
    with Cons.prems have "match_items p [] [] (c # cs) = Some (caps, snd m)"
      by (cases m) simp
    then have "c # cs = [] @ (c # cs) \<and> match_items p [] [] (c # cs) = Some (caps, snd m)" by simp
    then show ?thesis by blast
  qed
qed

lemma re_search_first:
  "match_items p [] [] s = Some (caps, rest) \<Longrightarrow> re_search p s = Some caps"
  by (cases s) simp_all

lemma match_items_lits_Some:
  assumes "match_items (lits p @ r) opens caps s = Some m"
  shows "\<exists>t. s = p @ t \<and> match_items r opens caps t = Some m"
proof -
  from assms have "take (length p) s = p"
    and m: "match_items r opens caps (drop (length p) s) = Some m"
    by (simp_all add: match_items_lits split: if_splits)
  then have "s = p @ drop (length p) s" by (metis append_take_drop_id)
  with m show ?thesis by blast
qed

subsection \<open>The profile of a run\<close>

lemma text_after_last_None:
  "text_after_last sep s = None \<Longrightarrow> s \<noteq> pre @ sep @ post"
proof (induction s arbitrary: pre)
  case Nil
  then show ?case by (auto split: if_splits)
next
  case (Cons c cs)
  from Cons.prems have none: "text_after_last sep cs = None"
    and here: "take (length sep) (c # cs) \<noteq> sep"
    by (auto split: option.splits if_splits)
  show ?case
  proof (cases pre)
    case Nil
    with here show ?thesis by auto
  next
    case (Cons x pre')
    with Cons.IH [OF none, of pre'] show ?thesis by auto
  qed
qed

lemma text_after_last_Some:
  "text_after_last sep s = Some p \<Longrightarrow>
   (\<exists>pre. s = pre @ sep @ p) \<and> (\<forall>pre' p'. s = pre' @ sep @ p' \<longrightarrow> length p \<le> length p')"
proof (induction s arbitrary: p)
  case Nil
  then show ?case by (auto split: if_splits)
next
  case (Cons c cs)
  show ?case
  proof (cases "text_after_last sep cs")
    case (Some t)
    with Cons.prems have t: "t = p" by simp
    from Cons.IH [OF Some] t obtain pre where
      pre: "cs = pre @ sep @ p"
      and least: "\<forall>pre' p'. cs = pre' @ sep @ p' \<longrightarrow> length p \<le> length p'" by blast
    have "\<forall>pre' p'. c # cs = pre' @ sep @ p' \<longrightarrow> length p \<le> length p'"
    proof (intro allI impI)
      fix pre' p'
      assume eq: "c # cs = pre' @ sep @ p'"
      show "length p \<le> length p'"
      proof (cases pre')
        case Nil
        with eq have "length (c # cs) = length sep + length p'" by (metis append_Nil length_append)
        moreover from pre have "length cs = length pre + length sep + length p" by simp
        ultimately show ?thesis by simp
      next
        case (Cons x pre'')
        with eq have "cs = pre'' @ sep @ p'" by simp
        with least show ?thesis by blast
      qed
    qed
    moreover from pre have "c # cs = (c # pre) @ sep @ p" by simp
    ultimately show ?thesis by blast
  next
    case None
    with Cons.prems have here: "take (length sep) (c # cs) = sep"
      and p: "p = drop (length sep) (c # cs)"
      by (auto split: if_splits)
    have "c # cs = [] @ sep @ p"
      using here p by (metis append_Nil append_take_drop_id)
    moreover have "\<forall>pre' p'. c # cs = pre' @ sep @ p' \<longrightarrow> length p \<le> length p'"
    proof (intro allI impI)
      fix pre' p'
      assume eq: "c # cs = pre' @ sep @ p'"
      show "length p \<le> length p'"
      proof (cases pre')
        case Nil
        with eq have "length (c # cs) = length sep + length p'" by (metis append_Nil length_append)
        with p show ?thesis by simp
      next
        case (Cons x pre'')
        with eq have "cs = pre'' @ sep @ p'" by simp
        with text_after_last_None [OF None] show ?thesis by blast
      qed
    qed
    ultimately show ?thesis by blast
  qed
qed

lemma title_tail_matches:
  assumes "CHR 0x0A \<notin> set p"
  shows "match_items (lits '' - '' @ [GOpen, Star Dot, GClose, Eol]) [] [] ('' - '' @ p)
           = Some ([p], [])"
proof -
  have "\<forall>c\<in>set p. atom_ok Dot c" using assms by auto
  moreover have "match_items [GClose, Eol] [p] [] [] = Some ([p], [])" by simp
  moreover have "\<forall>u' v'. p @ [] = u' @ v' \<and> length v' < length ([]::string) \<longrightarrow>
                   match_items [GClose, Eol] [p] [] v' = None" by simp
  ultimately have "match_items (Star Dot # [GClose, Eol]) [p] [] (p @ []) = Some ([p], [])"
    by (rule match_items_star_greedy)
  then show ?thesis by (simp add: match_items_lits)
qed

text \<open>
  Every match of the title pattern has this shape: characters of one line, the
  separator, the group, which is of one line too, and then the end of the text or the
  newline that ends it.
\<close>

lemma title_pattern_shape:
  assumes "match_items title_pattern [] [] t = Some (caps, rest)"
  shows "\<exists>u g. t = u @ '' - '' @ g @ rest \<and> CHR 0x0A \<notin> set u \<and> CHR 0x0A \<notin> set g
               \<and> (rest = [] \<or> rest = [CHR 0x0A]) \<and> caps = [g]"
proof -
  let ?r = "lits '' - '' @ [GOpen, Star Dot, GClose, Eol]"
  from assms have "match_items (Star Dot # ?r) [] [] t = Some (caps, rest)"
    by (simp add: title_pattern_def)
  from match_items_star_sound [OF this] obtain u v where
    uv: "t = u @ v" "\<forall>c\<in>set u. atom_ok Dot c" "match_items ?r [] [] v = Some (caps, rest)"
    by blast
  from match_items_lits_Some [OF uv(3)] obtain q where
    q: "v = '' - '' @ q" "match_items [GOpen, Star Dot, GClose, Eol] [] [] q = Some (caps, rest)"
    by blast
  from q(2) have "match_items (Star Dot # [GClose, Eol]) [q] [] q = Some (caps, rest)"
    by simp
  from match_items_star_sound [OF this] obtain g w where
    gw: "q = g @ w" "\<forall>c\<in>set g. atom_ok Dot c" "match_items [GClose, Eol] [q] [] w = Some (caps, rest)"
    by blast
  from gw(3) have w: "w = [] \<or> w = [CHR 0x0A]"
    and res: "caps = [take (length q - length w) q]" "rest = w"
    by (auto split: if_splits)
  from res(1) gw(1) have "caps = [g]" by simp
  moreover from uv(1) q(1) gw(1) res(2) have "t = u @ '' - '' @ g @ rest" by simp
  moreover from uv(2) gw(2) have "CHR 0x0A \<notin> set u" "CHR 0x0A \<notin> set g" by auto
  ultimately show ?thesis using w res(2) by blast
qed

lemma title_pattern_matches_from:
  assumes nl: "CHR 0x0A \<notin> set pre" "CHR 0x0A \<notin> set p"
    and least: "\<forall>pre' p'. pre @ '' - '' @ p = pre' @ '' - '' @ p' \<longrightarrow> length p \<le> length p'"
  shows "match_items title_pattern [] [] (pre @ '' - '' @ p) = Some ([p], [])"
proof -
  let ?r = "lits '' - '' @ [GOpen, Star Dot, GClose, Eol]"
  from nl(1) have dots: "\<forall>c\<in>set pre. atom_ok Dot c" by auto
  have tail: "match_items ?r [] [] ('' - '' @ p) = Some ([p], [])"
    using nl(2) by (rule title_tail_matches)
  have shorter: "\<forall>u' v'. pre @ '' - '' @ p = u' @ v' \<and> length v' < length ('' - '' @ p) \<longrightarrow>
                   match_items ?r [] [] v' = None"
  proof (intro allI impI)
    fix u' v'
    assume a: "pre @ '' - '' @ p = u' @ v' \<and> length v' < length ('' - '' @ p)"
    show "match_items ?r [] [] v' = None"
    proof (cases "match_items ?r [] [] v'")
      case None
      then show ?thesis .
    next
      case (Some m)
      from match_items_lits_Some [OF Some] obtain q where v': "v' = '' - '' @ q" by blast
      with a have "pre @ '' - '' @ p = u' @ '' - '' @ q" by simp
      with least have "length p \<le> length q" by blast
      with a v' show ?thesis by simp
    qed
  qed
  have "match_items (Star Dot # ?r) [] [] (pre @ '' - '' @ p) = Some ([p], [])"
    using dots tail shorter by (rule match_items_star_greedy)
  then show ?thesis by (simp add: title_pattern_def)
qed

lemma title_pattern_not_across_newline:
  assumes "CHR 0x0A \<in> set pre"
  shows "match_items title_pattern [] [] (pre @ '' - '' @ p) = None"
proof (cases "match_items title_pattern [] [] (pre @ '' - '' @ p)")
  case None
  then show ?thesis .
next
  case (Some m)
  obtain caps rest where m: "m = (caps, rest)" by (cases m)
  from title_pattern_shape [OF Some [unfolded m]] obtain u g where
    shape: "pre @ '' - '' @ p = u @ '' - '' @ g @ rest"
      "CHR 0x0A \<notin> set u" "CHR 0x0A \<notin> set g" "rest = [] \<or> rest = [CHR 0x0A]"
    by blast
  define y where "y = u @ '' - '' @ g"
  from shape(2,3) have y: "CHR 0x0A \<notin> set y" by (simp add: y_def)
  from shape(1) have eq: "pre @ '' - '' @ p = y @ rest" by (simp add: y_def)
  from shape(4) show ?thesis
  proof
    assume "rest = []"
    with eq have "set y = set (pre @ '' - '' @ p)" by simp
    with assms y show ?thesis by simp
  next
    assume "rest = [CHR 0x0A]"
    with eq have "butlast (pre @ ('' - '' @ p)) = butlast (y @ [CHR 0x0A])" by simp
    then have "pre @ butlast ('' - '' @ p) = y" by (simp add: butlast_append)
    with assms y show ?thesis by auto
  qed
qed

lemma title_pattern_last_occurrence:
  assumes "CHR 0x0A \<notin> set p"
    and "\<forall>pre' p'. pre @ '' - '' @ p = pre' @ '' - '' @ p' \<longrightarrow> length p \<le> length p'"
  shows "re_search title_pattern (pre @ '' - '' @ p) = Some [p]"
  using assms(2)
proof (induction pre)
  case Nil
  have "match_items title_pattern [] [] ([] @ '' - '' @ p) = Some ([p], [])"
    using assms(1) Nil by (intro title_pattern_matches_from) simp_all
  then show ?case by (simp add: re_search_first)
next
  case (Cons c pre)
  show ?case
  proof (cases "CHR 0x0A \<in> set (c # pre)")
    case True
    have "match_items title_pattern [] [] ((c # pre) @ '' - '' @ p) = None"
      using True by (rule title_pattern_not_across_newline)
    then have "re_search title_pattern ((c # pre) @ '' - '' @ p)
                 = re_search title_pattern (pre @ '' - '' @ p)" by simp
    moreover have "\<forall>pre' p'. pre @ '' - '' @ p = pre' @ '' - '' @ p' \<longrightarrow> length p \<le> length p'"
    proof (intro allI impI)
      fix pre' p'
      assume "pre @ '' - '' @ p = pre' @ '' - '' @ p'"
      then have "(c # pre) @ '' - '' @ p = (c # pre') @ '' - '' @ p'" by simp
      with Cons.prems show "length p \<le> length p'" by blast
    qed
    ultimately show ?thesis using Cons.IH by simp
  next
    case False
    have "match_items title_pattern [] [] ((c # pre) @ '' - '' @ p) = Some ([p], [])"
      using False assms(1) Cons.prems by (intro title_pattern_matches_from) simp_all
    then show ?thesis by (rule re_search_first)
  qed
qed

lemma title_pattern_last_separator:
  assumes nl: "CHR 0x0A \<notin> set p"
    and last: "text_after_last '' - '' title = Some p"
  shows "re_search title_pattern title = Some [p]"
proof -
  from text_after_last_Some [OF last] obtain pre where
    pre: "title = pre @ '' - '' @ p"
    and least: "\<forall>pre' p'. title = pre' @ '' - '' @ p' \<longrightarrow> length p \<le> length p'" by blast
  from least have "\<forall>pre' p'. pre @ '' - '' @ p = pre' @ '' - '' @ p' \<longrightarrow> length p \<le> length p'"
    unfolding pre .
  from title_pattern_last_occurrence [OF nl this] show ?thesis
    unfolding pre .
qed

lemma title_pattern_group_one_line:
  assumes "re_search title_pattern title = Some caps"
  shows "\<exists>g. caps = [g] \<and> CHR 0x0A \<notin> set g"
proof -
  from re_search_Some [OF assms] obtain pre t rest where
    "match_items title_pattern [] [] t = Some (caps, rest)" by blast
  from title_pattern_shape [OF this] show ?thesis by blast
qed

lemma title_pattern_needs_separator:
  assumes "re_search title_pattern title = Some caps"
  shows "\<exists>pre post. title = pre @ '' - '' @ post"
proof -
  let ?r = "lits '' - '' @ [GOpen, Star Dot, GClose, Eol]"
  from re_search_Some [OF assms] obtain pre t rest where
    t: "title = pre @ t" "match_items title_pattern [] [] t = Some (caps, rest)" by blast
  then have "match_items (Star Dot # ?r) [] [] t = Some (caps, rest)"
    by (simp add: title_pattern_def)
  from match_items_star_sound [OF this] obtain u v where
    uv: "t = u @ v" "match_items ?r [] [] v = Some (caps, rest)" by blast
  have "take (length '' - '') v = '' - ''"
  proof (rule ccontr)
    assume "take (length '' - '') v \<noteq> '' - ''"
    then have "match_items ?r [] [] v = None" by (simp only: match_items_lits if_False)
    with uv show False by simp
  qed
  then have "v = '' - '' @ drop (length '' - '') v" by (metis append_take_drop_id)
  with t uv have "title = (pre @ u) @ '' - '' @ drop (length '' - '') v" by simp
  then show ?thesis by blast
qed

text \<open>
  C8. The claim gives, for every title that contains the separator, the text after its
  last occurrence. In the pattern \<open>.\<close> does not match a newline and \<open>$\<close> also matches
  before a newline that ends the text, so the group never holds a newline. As amended:
  for every title that contains the separator and has no newline after its last
  occurrence, the profile is the text after that occurrence; a title without the
  separator, and any title the pattern does not match, raises \<open>AttributeError\<close>,
  which ends the loop over the runs. The titles left out are exactly those on which
  the profile is not the text after the last occurrence.
\<close>

theorem extract_profile_single_line:
  "(text_after_last '' - '' title = Some p \<longrightarrow>
      (extract_profile title = Inr p) = (CHR 0x0A \<notin> set p))
   \<and> (text_after_last '' - '' title = None \<longrightarrow> extract_profile title = Inl AttributeError)
   \<and> (re_search title_pattern title = None \<longrightarrow> extract_profile title = Inl AttributeError)
   \<and> (w_testrun w run = Inr output \<and> run_title output = title \<and> extract_profile title = Inl e \<longrightarrow>
        process_runs w report_struct (run # runs) = Inl e)"
proof (intro conjI impI)
  assume last: "text_after_last '' - '' title = Some p"
  show "(extract_profile title = Inr p) = (CHR 0x0A \<notin> set p)"
  proof
    assume "CHR 0x0A \<notin> set p"
    then have "re_search title_pattern title = Some [p]"
      using last by (rule title_pattern_last_separator)
    then show "extract_profile title = Inr p"
      by (simp add: extract_profile_def groups0_def group0_def)
  next
    assume r: "extract_profile title = Inr p"
    then obtain caps where caps: "re_search title_pattern title = Some caps"
      by (cases "re_search title_pattern title") (auto simp: extract_profile_def groups0_def)
    from title_pattern_group_one_line [OF caps] obtain g where
      g: "caps = [g]" "CHR 0x0A \<notin> set g" by blast
    with r caps have "g = p"
      by (simp add: extract_profile_def groups0_def group0_def)
    with g show "CHR 0x0A \<notin> set p" by simp
  qed
next
  assume none: "text_after_last '' - '' title = None"
  have "re_search title_pattern title = None"
  proof (rule ccontr)
    assume "re_search title_pattern title \<noteq> None"
    then obtain caps where "re_search title_pattern title = Some caps" by auto
    from title_pattern_needs_separator [OF this] obtain pre post
      where "title = pre @ '' - '' @ post" by blast
    with text_after_last_None [OF none] show False by blast
  qed
  then show "extract_profile title = Inl AttributeError"
    by (simp add: extract_profile_def groups0_def)
next
  assume "re_search title_pattern title = None"
  then show "extract_profile title = Inl AttributeError"
    by (simp add: extract_profile_def groups0_def)
next
  assume "w_testrun w run = Inr output \<and> run_title output = title \<and> extract_profile title = Inl e"
  then show "process_runs w report_struct (run # runs) = Inl e"
    by simp
qed

theorem extract_profile_single_line_witness:
  "extract_profile ''Nightly 4.14 - aws-ipi'' = Inr ''aws-ipi''
   \<and> extract_profile ''Nightly\<newline>4.14 - aws-ipi'' = Inr ''aws-ipi''
   \<and> extract_profile ''Nightly 4.14 - aws-ipi\<newline>'' \<noteq> Inr ''aws-ipi\<newline>''
   \<and> extract_profile ''Nightly 4.14'' = Inl AttributeError
   \<and> process_runs untitled_world [(''version'', VStr ''4.14'')] [''20210909-0851'']
       = Inl AttributeError"
proof -
  have t1: "text_after_last '' - '' ''Nightly 4.14 - aws-ipi'' = Some ''aws-ipi''"
    by code_simp
  have t2: "text_after_last '' - '' ''Nightly\<newline>4.14 - aws-ipi'' = Some ''aws-ipi''"
    by code_simp
  have t3: "text_after_last '' - '' ''Nightly 4.14 - aws-ipi\<newline>'' = Some ''aws-ipi\<newline>''"
    by code_simp
  have 2: "text_after_last '' - '' ''Nightly 4.14'' = None"
    by code_simp
  have 3: "w_testrun untitled_world ''20210909-0851''
             = Inr \<lparr>run_title = ''Nightly 4.14'', run_records = [sample_record]\<rparr>
           \<and> run_title \<lparr>run_title = ''Nightly 4.14'', run_records = [sample_record]\<rparr>
               = ''Nightly 4.14''"
    by (simp add: untitled_world_def)
  from extract_profile_single_line [of "''Nightly 4.14 - aws-ipi''" "''aws-ipi''"] t1
  have a: "extract_profile ''Nightly 4.14 - aws-ipi'' = Inr ''aws-ipi''" by simp
  from extract_profile_single_line [of "''Nightly\<newline>4.14 - aws-ipi''" "''aws-ipi''"] t2
  have a2: "extract_profile ''Nightly\<newline>4.14 - aws-ipi'' = Inr ''aws-ipi''" by simp
  from extract_profile_single_line [of "''Nightly 4.14 - aws-ipi\<newline>''" "''aws-ipi\<newline>''"] t3
  have a3: "extract_profile ''Nightly 4.14 - aws-ipi\<newline>'' \<noteq> Inr ''aws-ipi\<newline>''" by simp
  from extract_profile_single_line [of "''Nightly 4.14''"] 2
  have b: "extract_profile ''Nightly 4.14'' = Inl AttributeError" by blast
  from extract_profile_single_line [of "''Nightly 4.14''" _ untitled_world "''20210909-0851''"
         "\<lparr>run_title = ''Nightly 4.14'', run_records = [sample_record]\<rparr>" AttributeError
         "[(''version'', VStr ''4.14'')]" "[]"] 3 b
  have "process_runs untitled_world [(''version'', VStr ''4.14'')] [''20210909-0851'']
          = Inl AttributeError" by blast
  with a a2 a3 b show ?thesis by blast
qed

theorem extract_profile_newline_counterexample:
  "text_after_last '' - '' ''Nightly 4.14 - aws-ipi\<newline>'' = Some ''aws-ipi\<newline>''
   \<and> extract_profile ''Nightly 4.14 - aws-ipi\<newline>'' = Inr ''aws-ipi''
   \<and> text_after_last '' - '' ''Nightly 4.14 - aws\<newline>ipi'' = Some ''aws\<newline>ipi''
   \<and> extract_profile ''Nightly 4.14 - aws\<newline>ipi'' = Inl AttributeError"
  by code_simp

subsection \<open>The automation script of a record\<close>

lemma script_pattern_sound:
  assumes "re_search script_pattern s = Some caps"
  shows "contains_script_path s"
proof -
  let ?tail = "lits ''feature'' @ [GClose, One (Lit (CHR 0x0A))]"
  from re_search_Some [OF assms] obtain pre t rest where
    t: "s = pre @ t" "match_items script_pattern [] [] t = Some (caps, rest)" by blast
  have p: "script_pattern = lits ''file: '' @ (GOpen # (lits ''features'' @ (Star Dot # ?tail)))"
    by (simp add: script_pattern_def)
  from t(2) have "match_items (lits ''file: '' @ (GOpen # (lits ''features'' @ (Star Dot # ?tail))))
                    [] [] t = Some (caps, rest)"
    unfolding p .
  from match_items_lits_Some [OF this] obtain t1 where
    t1: "t = ''file: '' @ t1"
    and m1: "match_items (GOpen # (lits ''features'' @ (Star Dot # ?tail))) [] [] t1
               = Some (caps, rest)"
    by blast
  from m1 have "match_items (lits ''features'' @ (Star Dot # ?tail)) [t1] [] t1 = Some (caps, rest)"
    by simp
  from match_items_lits_Some [OF this] obtain t2 where
    t2: "t1 = ''features'' @ t2"
    and m2: "match_items (Star Dot # ?tail) [t1] [] t2 = Some (caps, rest)"
    by blast
  from match_items_star_sound [OF m2] obtain u v where
    uv: "t2 = u @ v" "\<forall>c\<in>set u. atom_ok Dot c" "match_items ?tail [t1] [] v = Some (caps, rest)"
    by blast
  from match_items_lits_Some [OF uv(3)] obtain v' where v: "v = ''feature'' @ v'"
    by blast
  have "s = pre @ ''file: features'' @ u @ ''feature'' @ v'"
    using t(1) t1 t2 uv(1) v by simp
  moreover from uv(2) have "CHR 0x0A \<notin> set u" by auto
  ultimately show ?thesis
    unfolding contains_script_path_def by blast
qed

lemma match_items_caps:
  "match_items p opens caps s = Some (caps', rest) \<Longrightarrow>
   length caps' = length caps + count_list p GClose"
  by (induction p opens caps s rule: match_items.induct)
     (auto split: list.splits if_splits option.splits)

lemma get_link_to_log_total: "\<exists>l. get_link_to_log content = Inr l"
proof (cases "re_search link_pattern content")
  case None
  then show ?thesis by (simp add: get_link_to_log_def)
next
  case (Some caps)
  from re_search_Some [OF Some] obtain pre t rest where
    "match_items link_pattern [] [] t = Some (caps, rest)" by blast
  from match_items_caps [OF this] have "length caps = 1"
    by (simp add: link_pattern_def lits_def)
  then obtain g where "caps = [g]" by (cases caps) auto
  with Some show ?thesis by (simp add: get_link_to_log_def group0_def)
qed

lemma process_records_append:
  "process_records w prof rs (xs @ ys)
     = (case process_records w prof rs xs of
          Inl e \<Rightarrow> Inl e
        | Inr rs' \<Rightarrow> process_records w prof rs' ys)"
  by (induction xs arbitrary: rs) (auto split: sum.splits)

lemma get_automation_script_no_field:
  "\<forall>cf\<in>set cfields. cf_key cf \<noteq> ''automation_script'' \<Longrightarrow>
   get_automation_script cfields = Inl UnboundLocalError"
  by (induction cfields) auto

lemma get_automation_script_first_field:
  "\<forall>c\<in>set fields_before. cf_key c \<noteq> ''automation_script'' \<Longrightarrow>
   cf_key cf = ''automation_script'' \<Longrightarrow>
   get_automation_script (fields_before @ cf # fields_after)
     = groups0 (re_search script_pattern (cf_content cf))"
  by (induction fields_before) auto

text \<open>
  C9. A failed record whose custom fields have no field keyed \<open>automation_script\<close>
  makes \<open>get_automation_script\<close> raise \<open>UnboundLocalError\<close>; one whose first such
  field does not contain the pattern makes it raise \<open>AttributeError\<close>. The exception
  leaves the loop over the records and the loop over the runs: nothing is inserted for
  the record and the program ends with the exception.
\<close>

theorem get_automation_script_hard_error:
  "((\<forall>cf\<in>set cfields. cf_key cf \<noteq> ''automation_script'') \<longrightarrow>
      get_automation_script cfields = Inl UnboundLocalError)
   \<and> ((\<forall>c\<in>set fields_before. cf_key c \<noteq> ''automation_script'')
        \<and> cf_key cf = ''automation_script'' \<and> \<not> contains_script_path (cf_content cf) \<longrightarrow>
      get_automation_script (fields_before @ cf # fields_after) = Inl AttributeError)
   \<and> (tr_result r = ''Failed'' \<and> get_automation_script (tr_custom r) = Inl e \<longrightarrow>
        process_record w prof report_struct r = Inl e
        \<and> (process_records w prof report0 earlier = Inr report_struct \<longrightarrow>
             process_records w prof report0 (earlier @ r # later) = Inl e
             \<and> (w_testrun w run = Inr output \<and> extract_profile (run_title output) = Inr prof
                 \<and> run_records output = earlier @ r # later \<longrightarrow>
                  process_runs w report0 (run # runs) = Inl e)))"
proof (intro conjI impI)
  assume "\<forall>cf\<in>set cfields. cf_key cf \<noteq> ''automation_script''"
  then show "get_automation_script cfields = Inl UnboundLocalError"
    by (rule get_automation_script_no_field)
next
  assume a: "(\<forall>c\<in>set fields_before. cf_key c \<noteq> ''automation_script'')
        \<and> cf_key cf = ''automation_script'' \<and> \<not> contains_script_path (cf_content cf)"
  then have "re_search script_pattern (cf_content cf) = None"
    using script_pattern_sound [of "cf_content cf"] by (cases "re_search script_pattern (cf_content cf)") auto
  with a show "get_automation_script (fields_before @ cf # fields_after) = Inl AttributeError"
    by (simp add: get_automation_script_first_field groups0_def)
next
  assume a: "tr_result r = ''Failed'' \<and> get_automation_script (tr_custom r) = Inl e"
  obtain l where "get_link_to_log (tr_comment r) = Inr l"
    using get_link_to_log_total by blast
  with a show rec: "process_record w prof report_struct r = Inl e"
    by (simp add: process_record_def)
  assume b: "process_records w prof report0 earlier = Inr report_struct"
  with rec show recs: "process_records w prof report0 (earlier @ r # later) = Inl e"
    by (simp add: process_records_append)
  assume "w_testrun w run = Inr output \<and> extract_profile (run_title output) = Inr prof
            \<and> run_records output = earlier @ r # later"
  with recs show "process_runs w report0 (run # runs) = Inl e"
    by simp
qed

theorem get_automation_script_hard_error_witness:
  "get_automation_script (tr_custom unscripted_record) = Inl UnboundLocalError
   \<and> get_automation_script (tr_custom manual_record) = Inl AttributeError
   \<and> process_record sample_world ''aws-ipi'' [(''version'', VStr ''4.14'')] unscripted_record
       = Inl UnboundLocalError"
proof -
  have 1: "\<forall>cf\<in>set (tr_custom unscripted_record). cf_key cf \<noteq> ''automation_script''"
    by (simp add: unscripted_record_def)
  have "\<not> contains_script_path ''manual''"
    by (auto simp: contains_script_path_def dest!: arg_cong [where f = length])
  then have 2: "(\<forall>c\<in>set []. cf_key c \<noteq> ''automation_script'')
        \<and> cf_key \<lparr>cf_key = ''automation_script'', cf_content = ''manual''\<rparr> = ''automation_script''
        \<and> \<not> contains_script_path (cf_content \<lparr>cf_key = ''automation_script'', cf_content = ''manual''\<rparr>)"
    by simp
  have 3: "tr_custom manual_record = [] @ \<lparr>cf_key = ''automation_script'', cf_content = ''manual''\<rparr> # []"
    by (simp add: manual_record_def sample_record_def)
  have 4: "tr_result unscripted_record = ''Failed''"
    by (simp add: unscripted_record_def sample_record_def)
  from get_automation_script_hard_error [of "tr_custom unscripted_record"] 1
  have a: "get_automation_script (tr_custom unscripted_record) = Inl UnboundLocalError" by blast
  from get_automation_script_hard_error [of _ "[]"
         "\<lparr>cf_key = ''automation_script'', cf_content = ''manual''\<rparr>" "[]"] 2
  have b: "get_automation_script (tr_custom manual_record) = Inl AttributeError"
    unfolding 3 by blast
  from get_automation_script_hard_error [of _ _ _ _ unscripted_record UnboundLocalError
         sample_world "''aws-ipi''" "[(''version'', VStr ''4.14'')]"] 4 a
  have "process_record sample_world ''aws-ipi'' [(''version'', VStr ''4.14'')] unscripted_record
          = Inl UnboundLocalError" by blast
  with a b show ?thesis by blast
qed

subsection \<open>Presence of the targets\<close>

lemma search_lines_iff:
  "search_lines target ls = (\<exists>line\<in>set ls. re_search target line \<noteq> None)"
  by (induction ls) auto

lemma match_loop_flags:
  "match_loop log_text targets found_all
     = found_all \<union> (\<lambda>target. search_lines target (splitlines log_text)) ` set targets"
  by (induction targets arbitrary: found_all) auto

lemma match_ordered_strings_iff:
  "match_ordered_strings log_text targets
     = (\<forall>target\<in>set targets. \<exists>line\<in>set (splitlines log_text). re_search target line \<noteq> None)"
  by (auto simp: match_ordered_strings_def py_all_def match_loop_flags search_lines_iff)

text \<open>A pattern of literal characters matches a line exactly when the line contains it.\<close>

lemma match_items_lits_only:
  "match_items (lits p) opens caps t
     = (if take (length p) t = p then Some (caps, drop (length p) t) else None)"
  using match_items_lits [of p "[]" opens caps t] by simp

lemma re_search_lits:
  "re_search (lits p) line \<noteq> None \<longleftrightarrow> (\<exists>pre post. line = pre @ p @ post)"
proof
  assume "re_search (lits p) line \<noteq> None"
  then obtain caps where "re_search (lits p) line = Some caps" by auto
  from re_search_Some [OF this] obtain pre t rest where
    t: "line = pre @ t" "match_items (lits p) [] [] t = Some (caps, rest)" by auto
  from t(2) have "take (length p) t = p"
    by (simp add: match_items_lits_only split: if_splits)
  then have "t = p @ drop (length p) t" by (metis append_take_drop_id)
  with t(1) show "\<exists>pre post. line = pre @ p @ post" by blast
next
  assume "\<exists>pre post. line = pre @ p @ post"
  then obtain pre post where "line = pre @ p @ post" by blast
  moreover have "re_search (lits p) (pre @ p @ post) \<noteq> None"
  proof (induction pre)
    case Nil
    have "match_items (lits p) [] [] (p @ post) = Some ([], post)"
      by (simp add: match_items_lits_only)
    then have "re_search (lits p) (p @ post) = Some []"
      by (rule re_search_first)
    then show ?case by simp
  next
    case (Cons c pre)
    then show ?case by (auto split: option.splits)
  qed
  ultimately show "re_search (lits p) line \<noteq> None" by simp
qed

lemma get_issue_methods_IssuesFinder:
  "get_issue_methods IssuesFinder_attrs = [Detector issue_fail_to_get_project_during_cleanup]"
proof -
  have d: "distinct (map fst IssuesFinder_attrs)"
    by (simp add: IssuesFinder_attrs_def)
  have "issue_rules (sort_key fst IssuesFinder_attrs) = sort_key fst (issue_rules IssuesFinder_attrs)"
    by (simp add: issue_rules_def filter_sort)
  also have "issue_rules IssuesFinder_attrs
               = [(''issue_fail_to_get_project_during_cleanup'',
                   Detector issue_fail_to_get_project_during_cleanup)]"
    by (simp add: issue_rules_def IssuesFinder_attrs_def startswith_def)
  finally show ?thesis
    by (simp add: get_issue_methods_sorted [OF d])
qed

text \<open>
  C1. \<open>match_ordered_strings\<close> is true exactly when every target pattern matches
  some line of the log; only the set of lines counts, not their order. For the
  registered rule: when the log is fetched, a new \<open>IssuesFinder\<close> returns the one
  description if each of the three patterns matches some line, and the empty list if
  one of them matches no line.
\<close>

theorem match_ordered_strings_presence:
  "match_ordered_strings log_text targets
     = (\<forall>target\<in>set targets. \<exists>line\<in>set (splitlines log_text). re_search target line \<noteq> None)
   \<and> (set (splitlines log_text) = set (splitlines log') \<longrightarrow>
        match_ordered_strings log_text targets = match_ordered_strings log' targets)
   \<and> (fta_logs test_info = Some url \<and> fst (get_file_from_url net url) = Inr log_text \<longrightarrow>
        find_issues IssuesFinder_attrs net IssuesFinder_init test_info
          = (if \<forall>target\<in>set re_strings.
                  \<exists>line\<in>set (splitlines log_text). re_search target line \<noteq> None
             then Inr ([issue_description], \<lparr>issues_found = [issue_description]\<rparr>)
             else Inr ([], \<lparr>issues_found = []\<rparr>)))"
proof (intro conjI impI)
  show "match_ordered_strings log_text targets
     = (\<forall>target\<in>set targets. \<exists>line\<in>set (splitlines log_text). re_search target line \<noteq> None)"
    by (rule match_ordered_strings_iff)
next
  assume "set (splitlines log_text) = set (splitlines log')"
  then show "match_ordered_strings log_text targets = match_ordered_strings log' targets"
    by (simp add: match_ordered_strings_iff)
next
  assume a: "fta_logs test_info = Some url \<and> fst (get_file_from_url net url) = Inr log_text"
  have "issue_fail_to_get_project_during_cleanup log_text
          = (if \<forall>target\<in>set re_strings.
                  \<exists>line\<in>set (splitlines log_text). re_search target line \<noteq> None
             then Some issue_description else None)"
    by (simp only: issue_fail_to_get_project_during_cleanup_def match_ordered_strings_iff)
  with a show "find_issues IssuesFinder_attrs net IssuesFinder_init test_info
          = (if \<forall>target\<in>set re_strings.
                  \<exists>line\<in>set (splitlines log_text). re_search target line \<noteq> None
             then Inr ([issue_description], \<lparr>issues_found = [issue_description]\<rparr>)
             else Inr ([], \<lparr>issues_found = []\<rparr>))"
    by (simp add: find_issues_def get_issue_methods_IssuesFinder IssuesFinder_init_def)
qed

theorem match_ordered_strings_presence_witness:
  "find_issues IssuesFinder_attrs (serve matching_log) IssuesFinder_init sample_info
     = Inr ([issue_description], \<lparr>issues_found = [issue_description]\<rparr>)
   \<and> find_issues IssuesFinder_attrs (serve partial_log) IssuesFinder_init sample_info
     = Inr ([], \<lparr>issues_found = []\<rparr>)"
proof -
  have 1: "fta_logs sample_info = Some ''http://ci/log''
           \<and> fst (get_file_from_url (serve matching_log) ''http://ci/log'') = Inr matching_log"
    by (simp add: sample_info_def get_file_from_url_def serve_def return_content_def)
  have 2: "fta_logs sample_info = Some ''http://ci/log''
           \<and> fst (get_file_from_url (serve partial_log) ''http://ci/log'') = Inr partial_log"
    by (simp add: sample_info_def get_file_from_url_def serve_def return_content_def)
  have 3: "\<forall>target\<in>set re_strings.
             \<exists>line\<in>set (splitlines matching_log). re_search target line \<noteq> None"
    by code_simp
  have 4: "\<not> (\<forall>target\<in>set re_strings.
             \<exists>line\<in>set (splitlines partial_log). re_search target line \<noteq> None)"
    by code_simp
  from match_ordered_strings_presence [of matching_log _ _ sample_info "''http://ci/log''"
         "serve matching_log"] 1 3
  have a: "find_issues IssuesFinder_attrs (serve matching_log) IssuesFinder_init sample_info
     = Inr ([issue_description], \<lparr>issues_found = [issue_description]\<rparr>)"
    by simp
  from match_ordered_strings_presence [of partial_log _ _ sample_info "''http://ci/log''"
         "serve partial_log"] 2 4
  have "find_issues IssuesFinder_attrs (serve partial_log) IssuesFinder_init sample_info
     = Inr ([], \<lparr>issues_found = []\<rparr>)"
    by simp
  with a show ?thesis by blast
qed

end
